theory Spec2Isabelle
  imports Main "HOL-Library.Multiset" "HOL-Library.List_Lexorder"
begin

section \<open>Tag normalizer (db.js: normalizeTag)\<close>

text \<open>
  A JavaScript string is the list of its UTF-16 code units, each a number; \<open>units\<close>
  gives the code units of an ASCII literal. A tag name handed to \<open>normalizeTag\<close> may
  be any JSON value: \<open>JOther\<close> stands for every value whose \<open>typeof\<close> is not
  \<open>'string'\<close>.
\<close>

type_synonym js_string = "nat list"

definition units :: "string \<Rightarrow> js_string" where
  "units s = map of_char s"

datatype js_value = JStr js_string | JOther

text \<open>
  \<open>String.prototype.toLowerCase\<close> is a built-in of the language, not code of the
  repository: it is a parameter \<open>toLowerCase\<close> of the model, a function from strings
  to strings (it may change the length: U+0130 becomes two code units). The one fact
  used of it is \<open>toLowerCase_on_ascii\<close>: on a string of ASCII code units it moves A to Z
  up by 32 and leaves the rest. Nothing is assumed of it on other strings.
\<close>

definition ascii_toLowerCase :: "nat \<Rightarrow> nat" where
  "ascii_toLowerCase c = (if 65 \<le> c \<and> c \<le> 90 then c + 32 else c)"

definition toLowerCase_on_ascii :: "(js_string \<Rightarrow> js_string) \<Rightarrow> bool" where
  "toLowerCase_on_ascii toLowerCase =
     (\<forall>s. (\<forall>c\<in>set s. c < 128) \<longrightarrow> toLowerCase s = map ascii_toLowerCase s)"

text \<open>The regular expression class \<open>\s\<close> on code units: U+0009 to U+000D, U+0020,
  U+00A0, U+1680, U+2000 to U+200A, U+2028, U+2029, U+202F, U+205F, U+3000, U+FEFF.\<close>

definition is_space :: "nat \<Rightarrow> bool" where
  "is_space c =
     ((0x0009 \<le> c \<and> c \<le> 0x000D) \<or> c = 0x0020 \<or> c = 0x00A0 \<or> c = 0x1680 \<or>
      (0x2000 \<le> c \<and> c \<le> 0x200A) \<or> c = 0x2028 \<or> c = 0x2029 \<or> c = 0x202F \<or>
      c = 0x205F \<or> c = 0x3000 \<or> c = 0xFEFF)"

text \<open>The hyphen is U+002D. The class \<open>[a-z0-9-]\<close>: U+0061 to U+007A, U+0030 to
  U+0039, U+002D.\<close>

definition is_hyphen :: "nat \<Rightarrow> bool" where
  "is_hyphen c = (c = 0x2D)"

definition is_slug_char :: "nat \<Rightarrow> bool" where
  "is_slug_char c = ((0x61 \<le> c \<and> c \<le> 0x7A) \<or> (0x30 \<le> c \<and> c \<le> 0x39) \<or> c = 0x2D)"

text \<open>\<open>s.replace(/P+/g, r)\<close> for a class \<open>P\<close> of code units: every maximal run of
  code units of the class is replaced by \<open>r\<close>.\<close>

function replace_runs :: "(nat \<Rightarrow> bool) \<Rightarrow> js_string \<Rightarrow> js_string \<Rightarrow> js_string" where
  "replace_runs P r [] = []"
| "replace_runs P r (c # cs) =
     (if P c then r @ replace_runs P r (dropWhile P cs) else c # replace_runs P r cs)"
  by pat_completeness auto
termination
  by (relation "measure (\<lambda>(P, r, s). length s)")
     (auto simp: less_Suc_eq_le length_dropWhile_le)

text \<open>\<open>s.replace(/^-|-$/g, '')\<close>: one hyphen at the start and one at the end of
  what is left are removed.\<close>

definition strip_edge_hyphens :: "js_string \<Rightarrow> js_string" where
  "strip_edge_hyphens s =
     (let s1 = (case s of [] \<Rightarrow> [] | c # cs \<Rightarrow> if is_hyphen c then cs else s)
      in if s1 \<noteq> [] \<and> is_hyphen (last s1) then butlast s1 else s1)"

fun normalizeTag :: "(js_string \<Rightarrow> js_string) \<Rightarrow> js_value \<Rightarrow> js_string" where
  "normalizeTag toLowerCase JOther = []"
| "normalizeTag toLowerCase (JStr s) =
     strip_edge_hyphens
       (replace_runs is_hyphen [0x2D]
          (filter is_slug_char
             (replace_runs is_space [0x2D] (toLowerCase s))))"

text \<open>
  A case mapping for the examples: it lowers A to Z, the Latin-1 capitals, the Kelvin
  sign U+212A (to k) and U+0130 (to i and U+0307), as \<open>toLowerCase\<close> does, and leaves
  every other code unit.
\<close>

definition lower_example_unit :: "nat \<Rightarrow> js_string" where
  "lower_example_unit c =
     (if (0x41 \<le> c \<and> c \<le> 0x5A) \<or> (0xC0 \<le> c \<and> c \<le> 0xDE \<and> c \<noteq> 0xD7) then [c + 32]
      else if c = 0x212A then [0x6B]
      else if c = 0x0130 then [0x69, 0x0307]
      else [c])"

definition lower_example :: "js_string \<Rightarrow> js_string" where
  "lower_example s = concat (map lower_example_unit s)"

subsection \<open>The normalizer as the specification words it\<close>

text \<open>
  The pipeline in the specification's words, for comparison with \<open>normalizeTag\<close>:
  lowercase; collapse each run of whitespace to a single hyphen; strip every
  character outside \<open>[a-z0-9-]\<close>; collapse each run of hyphens to one; trim all leading
  and trailing hyphens. A run is collapsed by dropping every character of the class
  that is followed by another one of the class and turning the last into a hyphen.
\<close>

fun spec_collapse_runs :: "(nat \<Rightarrow> bool) \<Rightarrow> js_string \<Rightarrow> js_string" where
  "spec_collapse_runs P [] = []"
| "spec_collapse_runs P [a] = [if P a then 0x2D else a]"
| "spec_collapse_runs P (a # b # cs) =
     (if P a \<and> P b then spec_collapse_runs P (b # cs)
      else (if P a then 0x2D else a) # spec_collapse_runs P (b # cs))"

definition spec_trim_hyphens :: "js_string \<Rightarrow> js_string" where
  "spec_trim_hyphens s = rev (dropWhile is_hyphen (rev (dropWhile is_hyphen s)))"

fun spec_normalize :: "(js_string \<Rightarrow> js_string) \<Rightarrow> js_value \<Rightarrow> js_string" where
  "spec_normalize toLowerCase JOther = []"
| "spec_normalize toLowerCase (JStr s) =
     spec_trim_hyphens
       (spec_collapse_runs is_hyphen
          (filter is_slug_char
             (spec_collapse_runs is_space (toLowerCase s))))"

text \<open>A slug, the canonical form of a tag name: characters of \<open>[a-z0-9-]\<close> only, no two
  hyphens in a row, no hyphen at either end.\<close>

definition no_double_hyphen :: "js_string \<Rightarrow> bool" where
  "no_double_hyphen s = successively (\<lambda>a b. \<not> (is_hyphen a \<and> is_hyphen b)) s"

definition is_slug :: "js_string \<Rightarrow> bool" where
  "is_slug s =
     (list_all is_slug_char s \<and> no_double_hyphen s \<and>
      (s = [] \<or> (\<not> is_hyphen (hd s) \<and> \<not> is_hyphen (last s))))"

section \<open>The database (db.js)\<close>

text \<open>
  The SQLite tables are lists of rows (\<open>pictures\<close>, \<open>tags\<close>, \<open>picture_tags\<close>) and a
  map from the primary key (\<open>tokens\<close>). \<open>pictures_seq\<close> and \<open>tags_seq\<close> are the
  AUTOINCREMENT counters of \<open>sqlite_sequence\<close>: the largest id ever handed out.
  Integer columns written only with non-negative numbers are \<open>nat\<close>. The column
  \<open>random_ids\<close> holds \<open>JSON.stringify\<close> of an array of ids or NULL; it is kept parsed.
\<close>

record picture =
  pic_id :: nat
  filename :: string
  created_at :: nat
  description :: "string option"
  date :: "string option"
  location :: "string option"

record token_row =
  current_index :: nat
  random_ids :: "nat list option"
  random_index :: nat
  token_created_at :: nat

record db =
  pictures :: "picture list"
  pictures_seq :: nat
  tags :: "(nat \<times> js_string) list"
  tags_seq :: nat
  picture_tags :: "(nat \<times> nat) list"
  tokens :: "string \<rightharpoonup> token_row"

definition empty_db :: db where
  "empty_db = \<lparr>pictures = [], pictures_seq = 0, tags = [], tags_seq = 0,
               picture_tags = [], tokens = Map.empty\<rparr>"



subsection \<open>Pictures\<close>

definition getPictureById :: "db \<Rightarrow> nat \<Rightarrow> picture option" where
  "getPictureById d i = find (\<lambda>p. pic_id p = i) (pictures d)"

text \<open>\<open>INSERT INTO pictures\<close>: the UNIQUE constraint on \<open>filename\<close> makes the
  statement throw (\<open>None\<close>); \<open>x || null\<close> turns an empty string into NULL.\<close>

definition or_null :: "string option \<Rightarrow> string option" where
  "or_null x = (case x of None \<Rightarrow> None | Some s \<Rightarrow> if s = [] then None else Some s)"

definition addPicture ::
  "db \<Rightarrow> string \<Rightarrow> nat \<Rightarrow> string option \<Rightarrow> string option \<Rightarrow> (db \<times> nat) option" where
  "addPicture d fname now dt loc =
     (if fname \<in> set (map filename (pictures d)) then None
      else let i = pictures_seq d + 1
           in Some (d\<lparr>pictures := pictures d @
                        [\<lparr>pic_id = i, filename = fname, created_at = now, description = None,
                          date = or_null dt, location = or_null loc\<rparr>],
                      pictures_seq := i\<rparr>, i))"

text \<open>\<open>DELETE FROM pictures WHERE id = ?\<close>, with \<open>ON DELETE CASCADE\<close> on
  \<open>picture_tags\<close>; the result is the deleted row, or \<open>false\<close> (\<open>None\<close>).\<close>

definition deletePicture :: "db \<Rightarrow> nat \<Rightarrow> db \<times> picture option" where
  "deletePicture d i =
     (case getPictureById d i of
        None \<Rightarrow> (d, None)
      | Some pic \<Rightarrow>
          (d\<lparr>pictures := filter (\<lambda>p. pic_id p \<noteq> i) (pictures d),
             picture_tags := filter (\<lambda>pt. fst pt \<noteq> i) (picture_tags d)\<rparr>, Some pic))"

definition getPictureCount :: "db \<Rightarrow> nat" where
  "getPictureCount d = length (pictures d)"

definition getAllPictureIds :: "db \<Rightarrow> nat list" where
  "getAllPictureIds d = map pic_id (sort_key pic_id (pictures d))"

text \<open>\<open>SELECT * FROM pictures ORDER BY id LIMIT 1 OFFSET ?\<close>: no row past the end.\<close>

definition getPictureByIndex :: "db \<Rightarrow> nat \<Rightarrow> picture option" where
  "getPictureByIndex d index =
     (let rows = sort_key pic_id (pictures d)
      in if index < length rows then Some (rows ! index) else None)"

subsection \<open>Tags\<close>








subsection \<open>Tokens\<close>

definition getToken :: "db \<Rightarrow> string \<Rightarrow> token_row option" where
  "getToken d tok = tokens d tok"

text \<open>\<open>createToken\<close>: \<open>tok\<close> is the hexadecimal string drawn from
  \<open>crypto.randomBytes\<close>; the INSERT throws (\<open>None\<close>) on a primary key in use.\<close>

definition createToken :: "db \<Rightarrow> string \<Rightarrow> nat \<Rightarrow> db option" where
  "createToken d tok now =
     (if tokens d tok \<noteq> None then None
      else Some (d\<lparr>tokens := (tokens d)(tok \<mapsto>
              \<lparr>current_index = 0, random_ids = None, random_index = 0,
               token_created_at = now\<rparr>)\<rparr>))"

text \<open>\<open>deleteToken\<close> returns the database and \<open>changes\<close>, the number of rows deleted.\<close>

definition deleteToken :: "db \<Rightarrow> string \<Rightarrow> db \<times> nat" where
  "deleteToken d tok =
     (d\<lparr>tokens := (tokens d)(tok := None)\<rparr>, if tokens d tok = None then 0 else 1)"

definition updateTokenIndex :: "db \<Rightarrow> string \<Rightarrow> nat \<Rightarrow> db" where
  "updateTokenIndex d tok index =
     (case tokens d tok of
        None \<Rightarrow> d
      | Some r \<Rightarrow> d\<lparr>tokens := (tokens d)(tok \<mapsto> r\<lparr>current_index := index\<rparr>)\<rparr>)"

text \<open>\<open>getTokenRandomState\<close>: the pair \<open>(random_ids, random_index)\<close> of the row,
  \<open>null\<close> when there is no row.\<close>

definition getTokenRandomState :: "db \<Rightarrow> string \<Rightarrow> (nat list option \<times> nat) option" where
  "getTokenRandomState d tok =
     (case tokens d tok of
        None \<Rightarrow> None
      | Some r \<Rightarrow> Some (random_ids r, random_index r))"

definition updateTokenRandomState :: "db \<Rightarrow> string \<Rightarrow> nat list \<Rightarrow> nat \<Rightarrow> db" where
  "updateTokenRandomState d tok ids index =
     (case tokens d tok of
        None \<Rightarrow> d
      | Some r \<Rightarrow>
          d\<lparr>tokens := (tokens d)(tok \<mapsto> r\<lparr>random_ids := Some ids, random_index := index\<rparr>)\<rparr>)"

section \<open>The delivery handler (server.js: GET /api/photo)\<close>

text \<open>
  \<open>Math.random\<close> is an explicit stream of draws that the handler threads through:
  \<open>Math.floor(Math.random() * k)\<close> is some number below \<open>k\<close>, here the next draw
  modulo \<open>k\<close>, so every choice the code can make is the choice of some stream.
\<close>

type_synonym rng = "nat \<Rightarrow> nat"

definition random_below :: "nat \<Rightarrow> rng \<Rightarrow> nat \<times> rng" where
  "random_below k g = (g 0 mod k, \<lambda>n. g (Suc n))"

text \<open>The loop of \<open>shuffle\<close>, \<open>for (let i = a.length - 1; i > 0; i--)\<close>, with the
  swap \<open>[a[i], a[j]] = [a[j], a[i]]\<close>.\<close>

fun shuffle_loop :: "nat \<Rightarrow> 'a list \<Rightarrow> rng \<Rightarrow> 'a list \<times> rng" where
  "shuffle_loop 0 a g = (a, g)"
| "shuffle_loop (Suc i) a g =
     (let (j, g') = random_below (Suc i + 1) g
      in shuffle_loop i (a[Suc i := a ! j, j := a ! Suc i]) g')"

definition shuffle :: "'a list \<Rightarrow> rng \<Rightarrow> 'a list \<times> rng" where
  "shuffle arr g = shuffle_loop (length arr - 1) arr g"

text \<open>A response is an error (status and the \<open>error\<close> field of the body) or the
  JSON of a picture: id, description, date and location (the \<open>url\<close> field, built from
  the request's host and the token, is left out).\<close>

datatype response =
  Error nat string
| PhotoJson nat "string option" "string option" "string option"

definition photo_json :: "picture \<Rightarrow> response" where
  "photo_json pic =
     PhotoJson (pic_id pic) (or_null (description pic)) (or_null (date pic))
       (or_null (location pic))"

text \<open>The end of the handler: \<open>if (!pic) return res.status(404)...\<close>, else the JSON
  of the picture. \<open>served_id\<close> reads the \<open>id\<close> field of a response's body.\<close>

definition respond :: "picture option \<Rightarrow> response" where
  "respond pic = (case pic of None \<Rightarrow> Error 404 ''Not found'' | Some p \<Rightarrow> photo_json p)"

fun served_id :: "response \<Rightarrow> nat option" where
  "served_id (Error status msg) = None"
| "served_id (PhotoJson i descr dt loc) = Some i"

text \<open>The test \<open>!ids || ids.length === 0 || idx >= ids.length\<close> of the handler, and
  its branch \<open>mode === 'random'\<close>: the picture found (if any), the permutation and the
  cursor to store, and the rest of the random stream. The lookup \<open>ids[idx]\<close> is always
  in range when the gallery has a picture (\<open>random_branch_in_range\<close> below).\<close>

definition needs_regen :: "nat list option \<Rightarrow> nat \<Rightarrow> bool" where
  "needs_regen ids idx =
     (case ids of None \<Rightarrow> True | Some l \<Rightarrow> length l = 0 \<or> idx \<ge> length l)"

definition random_branch ::
  "db \<Rightarrow> rng \<Rightarrow> string \<Rightarrow> picture option \<times> nat list \<times> nat \<times> rng" where
  "random_branch d g tok =
     (let state = getTokenRandomState d tok;
          ids0 = (case state of None \<Rightarrow> None | Some s \<Rightarrow> fst s);
          idx0 = (case state of None \<Rightarrow> 0 | Some s \<Rightarrow> snd s);
          (ids1, idx1, g1) =
            (if needs_regen ids0 idx0
             then (let (s, g') = shuffle (getAllPictureIds d) g in (s, 0, g'))
             else (the ids0, idx0, g));
          pic = (if idx1 < length ids1 then getPictureById d (ids1 ! idx1) else None);
          idx2 = idx1 + 1;
          (ids3, idx3, g3) =
            (if idx2 \<ge> length ids1
             then (let (s, g') = shuffle (getAllPictureIds d) g1 in (s, 0, g'))
             else (ids1, idx2, g1))
      in (pic, ids3, idx3, g3))"

text \<open>The handler. The query parameters \<open>token\<close> and \<open>mode\<close> are strings, a missing
  one the empty string (\<open>!token\<close> and \<open>mode || 'next'\<close> treat both alike).\<close>

definition photo :: "db \<Rightarrow> rng \<Rightarrow> string \<Rightarrow> string \<Rightarrow> response \<times> db \<times> rng" where
  "photo d g token mode0 =
     (let mode = (if mode0 = [] then ''next'' else mode0)
      in if token = [] then (Error 400 ''token required'', d, g)
         else let count = getPictureCount d
              in if count = 0 then (Error 404 ''No pictures in gallery'', d, g)
                 else case getToken d token of
                        None \<Rightarrow> (Error 403 ''Invalid or revoked token'', d, g)
                      | Some tokenData \<Rightarrow>
                          let (pic, d', g') =
                                (if mode = ''random''
                                 then (let (p, ids, idx, g1) = random_branch d g token
                                       in (p, updateTokenRandomState d token ids idx, g1))
                                 else (let index = current_index tokenData mod count
                                       in (getPictureByIndex d index,
                                           updateTokenIndex d token ((index + 1) mod count), g)))
                          in (respond pic, d', g'))"

text \<open>The outcomes of the specification, as the handler answers them.\<close>

definition Forbidden :: response where
  "Forbidden = Error 403 ''Invalid or revoked token''"

definition EmptyCollection :: response where
  "EmptyCollection = Error 404 ''No pictures in gallery''"

definition NotFound :: response where
  "NotFound = Error 404 ''Not found''"

text \<open>Consecutive deliveries with one token and one mode: the responses in order,
  and the database and random stream after the last.\<close>

fun deliveries :: "nat \<Rightarrow> db \<Rightarrow> rng \<Rightarrow> string \<Rightarrow> string \<Rightarrow> response list \<times> db \<times> rng" where
  "deliveries 0 d g token mode = ([], d, g)"
| "deliveries (Suc k) d g token mode =
     (let (r, d1, g1) = photo d g token mode;
          (rs, d2, g2) = deliveries k d1 g1 token mode
      in (r # rs, d2, g2))"

section \<open>Example galleries\<close>

text \<open>A random stream whose draws are all 0, and galleries built with the operations
  above: one picture and a token; a second picture added; and the second gallery after
  one randomized delivery and the deletion of picture 1, whose cached permutation
  still names the deleted picture at its cursor.\<close>

definition zero_draws :: rng where
  "zero_draws = (\<lambda>n. 0)"

definition gallery_A :: db where
  "gallery_A = the (createToken (fst (the (addPicture empty_db ''a.jpg'' 0 None None))) ''T'' 0)"

definition gallery_AB :: db where
  "gallery_AB = fst (the (addPicture gallery_A ''b.jpg'' 0 None None))"

definition gallery_stale :: db where
  "gallery_stale =
     fst (deletePicture (fst (snd (photo gallery_AB zero_draws ''T'' ''random''))) 1)"

text \<open>The one-picture gallery after one randomized delivery and the deletion of its
  picture: no picture is left, and the cached permutation still names picture 1.\<close>

definition gallery_emptied :: db where
  "gallery_emptied =
     fst (deletePicture (fst (snd (photo gallery_A zero_draws ''T'' ''random''))) 1)"

text \<open>The scenario of the sequential mode: picture A and token T; one delivery;
  picture B added; a second delivery. \<open>stored_cursor\<close> reads the column
  \<open>current_index\<close> of a token; \<open>alt_draws\<close> is a second random stream.\<close>

definition picture_A :: picture where
  "picture_A = \<lparr>pic_id = 1, filename = ''a.jpg'', created_at = 0, description = None,
                 date = None, location = None\<rparr>"

definition picture_B :: picture where
  "picture_B = \<lparr>pic_id = 2, filename = ''b.jpg'', created_at = 0, description = None,
                 date = None, location = None\<rparr>"

definition scenario_1 :: db where
  "scenario_1 = fst (snd (photo gallery_A zero_draws ''T'' ''next''))"

definition scenario_2 :: db where
  "scenario_2 = fst (the (addPicture scenario_1 ''b.jpg'' 0 None None))"

definition scenario_3 :: db where
  "scenario_3 = fst (snd (photo scenario_2 zero_draws ''T'' ''next''))"

definition stored_cursor :: "db \<Rightarrow> string \<Rightarrow> nat option" where
  "stored_cursor d tok = map_option current_index (getToken d tok)"

definition alt_draws :: rng where
  "alt_draws = (\<lambda>n. if n = 0 then 0 else 1)"

section \<open>Basic facts about the operations\<close>

lemma pictures_updateTokenIndex: "pictures (updateTokenIndex d t i) = pictures d"
  by (simp add: updateTokenIndex_def split: option.splits)

lemma pictures_updateTokenRandomState:
  "pictures (updateTokenRandomState d t ids i) = pictures d"
  by (simp add: updateTokenRandomState_def split: option.splits)

lemma getToken_updateTokenIndex:
  "getToken d t = Some r \<Longrightarrow>
   getToken (updateTokenIndex d t i) t = Some (r\<lparr>current_index := i\<rparr>)"
  by (simp add: getToken_def updateTokenIndex_def)

lemma getToken_updateTokenRandomState:
  "getToken d t = Some r \<Longrightarrow>
   getToken (updateTokenRandomState d t ids i) t =
     Some (r\<lparr>random_ids := Some ids, random_index := i\<rparr>)"
  by (simp add: getToken_def updateTokenRandomState_def)

lemma shuffle_loop_mset:
  "i < length a \<Longrightarrow> mset (fst (shuffle_loop i a g)) = mset a"
proof (induction i arbitrary: a g)
  case 0
  then show ?case by simp
next
  case (Suc i)
  have j: "g 0 mod (Suc i + 1) < length a"
  proof -
    have "g 0 mod (Suc i + 1) < Suc i + 1" by simp
    with Suc.prems show ?thesis by arith
  qed
  have "mset (a[Suc i := a ! (g 0 mod (Suc i + 1)), g 0 mod (Suc i + 1) := a ! Suc i]) = mset a"
    using Suc.prems j by (simp add: mset_swap)
  moreover have "i < length (a[Suc i := a ! (g 0 mod (Suc i + 1)), g 0 mod (Suc i + 1) := a ! Suc i])"
    using Suc.prems by simp
  ultimately show ?case
    using Suc.IH by (simp add: random_below_def)
qed

lemma mset_shuffle: "mset (fst (shuffle arr g)) = mset arr"
  by (cases arr) (simp_all add: shuffle_def shuffle_loop_mset)

lemma length_shuffle: "length (fst (shuffle arr g)) = length arr"
  using mset_shuffle [of arr g] by (metis size_mset)

lemma length_getAllPictureIds: "length (getAllPictureIds d) = getPictureCount d"
  by (simp add: getAllPictureIds_def getPictureCount_def)

lemma photo_sequential:
  assumes "token \<noteq> []" and "0 < getPictureCount d" and "getToken d token = Some r"
    and "mode \<noteq> ''random''"
  shows "photo d g token mode =
           (respond (getPictureByIndex d (current_index r mod getPictureCount d)),
            updateTokenIndex d token
              ((current_index r mod getPictureCount d + 1) mod getPictureCount d), g)"
  using assms by (simp add: photo_def Let_def)

lemma photo_random:
  assumes "token \<noteq> []" and "0 < getPictureCount d" and "getToken d token = Some r"
  shows "photo d g token ''random'' =
           (case random_branch d g token of (p, ids, idx, g1) \<Rightarrow>
              (respond p, updateTokenRandomState d token ids idx, g1))"
  using assms by (simp add: photo_def Let_def split: prod.splits)

lemma random_branch_cached:
  assumes "getToken d tok = Some r" and "random_ids r = Some ids"
    and "random_index r < length ids"
  shows "random_branch d g tok =
           (getPictureById d (ids ! random_index r),
            if Suc (random_index r) \<ge> length ids
            then (fst (shuffle (getAllPictureIds d) g), 0, snd (shuffle (getAllPictureIds d) g))
            else (ids, Suc (random_index r), g))"
proof -
  have "\<not> needs_regen (Some ids) (random_index r)"
    using assms(3) by (auto simp: needs_regen_def)
  then show ?thesis
    using assms
    by (simp add: random_branch_def getTokenRandomState_def getToken_def Let_def
        split: prod.splits)
qed

lemma random_branch_regen:
  assumes "getToken d tok = Some r" and "needs_regen (random_ids r) (random_index r)"
    and "0 < getPictureCount d" and "shuffle (getAllPictureIds d) g = (s, g1)"
  shows "random_branch d g tok =
           (getPictureById d (s ! 0),
            if 1 \<ge> length s
            then (fst (shuffle (getAllPictureIds d) g1), 0, snd (shuffle (getAllPictureIds d) g1))
            else (s, 1, g1))"
proof -
  have "length s = getPictureCount d"
    using length_shuffle [of "getAllPictureIds d" g] assms(4)
    by (simp add: length_getAllPictureIds)
  then show ?thesis
    using assms
    by (simp add: random_branch_def getTokenRandomState_def getToken_def
        Let_def split: prod.splits)
qed

lemma random_branch_in_range:
  assumes "0 < getPictureCount d" and "getToken d tok = Some r"
  shows "fst (random_branch d g tok) =
           (if needs_regen (random_ids r) (random_index r)
            then getPictureById d (fst (shuffle (getAllPictureIds d) g) ! 0)
            else getPictureById d (the (random_ids r) ! random_index r)) \<and>
         0 < length (fst (shuffle (getAllPictureIds d) g)) \<and>
         (\<not> needs_regen (random_ids r) (random_index r) \<longrightarrow>
            random_index r < length (the (random_ids r)))"
proof (cases "needs_regen (random_ids r) (random_index r)")
  case True
  obtain s g1 where sh: "shuffle (getAllPictureIds d) g = (s, g1)"
    by (cases "shuffle (getAllPictureIds d) g")
  have "0 < length (fst (shuffle (getAllPictureIds d) g))"
    using assms(1) by (simp add: length_shuffle length_getAllPictureIds)
  then show ?thesis
    using True sh by (simp add: random_branch_regen [OF assms(2) True assms(1) sh])
next
  case False
  then obtain ids where ids: "random_ids r = Some ids" and idx: "random_index r < length ids"
    by (auto simp: needs_regen_def split: option.splits)
  have "0 < length (fst (shuffle (getAllPictureIds d) g))"
    using assms(1) by (simp add: length_shuffle length_getAllPictureIds)
  then show ?thesis
    using False ids idx by (simp add: random_branch_cached [OF assms(2) ids idx])
qed

lemma gallery_A_eq:
  "gallery_A =
     \<lparr>pictures = [\<lparr>pic_id = 1, filename = ''a.jpg'', created_at = 0, description = None,
                   date = None, location = None\<rparr>],
      pictures_seq = 1, tags = [], tags_seq = 0, picture_tags = [],
      tokens = [''T'' \<mapsto> \<lparr>current_index = 0, random_ids = None, random_index = 0,
                           token_created_at = 0\<rparr>]\<rparr>"
  by (simp add: gallery_A_def addPicture_def createToken_def empty_db_def or_null_def)

lemma gallery_AB_eq:
  "gallery_AB =
     \<lparr>pictures = [\<lparr>pic_id = 1, filename = ''a.jpg'', created_at = 0, description = None,
                   date = None, location = None\<rparr>,
                  \<lparr>pic_id = 2, filename = ''b.jpg'', created_at = 0, description = None,
                   date = None, location = None\<rparr>],
      pictures_seq = 2, tags = [], tags_seq = 0, picture_tags = [],
      tokens = [''T'' \<mapsto> \<lparr>current_index = 0, random_ids = None, random_index = 0,
                           token_created_at = 0\<rparr>]\<rparr>"
  by (simp add: gallery_AB_def gallery_A_eq addPicture_def or_null_def)

lemma shuffle_12_zero: "shuffle [Suc 0, 2] zero_draws = ([2, Suc 0], zero_draws)"
  by (simp add: shuffle_def random_below_def zero_draws_def)

lemma gallery_stale_eq:
  "gallery_stale =
     \<lparr>pictures = [\<lparr>pic_id = 2, filename = ''b.jpg'', created_at = 0, description = None,
                   date = None, location = None\<rparr>],
      pictures_seq = 2, tags = [], tags_seq = 0, picture_tags = [],
      tokens = [''T'' \<mapsto> \<lparr>current_index = 0, random_ids = Some [2, 1], random_index = 1,
                           token_created_at = 0\<rparr>]\<rparr>"
  by (simp add: gallery_stale_def gallery_AB_eq photo_def random_branch_def
      getTokenRandomState_def getToken_def getPictureCount_def getAllPictureIds_def
      needs_regen_def shuffle_12_zero getPictureById_def updateTokenRandomState_def
      photo_json_def or_null_def deletePicture_def)

lemma gallery_emptied_eq:
  "gallery_emptied =
     \<lparr>pictures = [], pictures_seq = 1, tags = [], tags_seq = 0, picture_tags = [],
      tokens = [''T'' \<mapsto> \<lparr>current_index = 0, random_ids = Some [1], random_index = 0,
                           token_created_at = 0\<rparr>]\<rparr>"
  by (simp add: gallery_emptied_def gallery_A_eq photo_def random_branch_def
      getTokenRandomState_def getToken_def getPictureCount_def getAllPictureIds_def
      needs_regen_def shuffle_def getPictureById_def updateTokenRandomState_def
      respond_def photo_json_def or_null_def deletePicture_def)

lemma photo_NotFound_reached:
  assumes "fst (photo d g token mode) = NotFound"
  shows "token \<noteq> [] \<and> 0 < getPictureCount d"
proof -
  have "token \<noteq> []"
    using assms by (auto simp: photo_def NotFound_def)
  moreover from this have "getPictureCount d \<noteq> 0"
    using assms by (cases "getPictureCount d = 0") (auto simp: photo_def NotFound_def)
  ultimately show ?thesis by simp
qed

lemma sequential_cursor_in_range:
  assumes "token \<noteq> []" and "0 < getPictureCount d" and "getToken d token = Some r"
    and "mode \<noteq> ''random''"
  shows "\<exists>r'. getToken (fst (snd (photo d g token mode))) token = Some r' \<and>
              current_index r' < getPictureCount d"
  using assms by (simp add: photo_sequential getToken_updateTokenIndex)

lemma random_state_after:
  assumes "token \<noteq> []" and "0 < getPictureCount d" and "getToken d token = Some r"
  shows "\<exists>ids' idx'.
           getToken (fst (snd (photo d g token ''random''))) token =
             Some (r\<lparr>random_ids := Some ids', random_index := idx'\<rparr>) \<and>
           idx' < length ids' \<and>
           (if needs_regen (random_ids r) (random_index r)
            then mset ids' = mset (getAllPictureIds d) \<and>
                 idx' = (if getPictureCount d = 1 then 0 else 1)
            else if Suc (random_index r) < length (the (random_ids r))
            then ids' = the (random_ids r) \<and> idx' = Suc (random_index r)
            else mset ids' = mset (getAllPictureIds d) \<and> idx' = 0)"
proof (cases "needs_regen (random_ids r) (random_index r)")
  case True
  obtain s g1 where sh: "shuffle (getAllPictureIds d) g = (s, g1)"
    by (cases "shuffle (getAllPictureIds d) g")
  have ms: "mset s = mset (getAllPictureIds d)"
    using mset_shuffle [of "getAllPictureIds d" g] sh by simp
  then have len: "length s = getPictureCount d"
    by (metis size_mset length_getAllPictureIds)
  let ?s2 = "fst (shuffle (getAllPictureIds d) g1)"
  have len2: "length ?s2 = getPictureCount d"
    by (simp add: length_shuffle length_getAllPictureIds)
  show ?thesis
  proof (cases "getPictureCount d = 1")
    case one: True
    have "getToken (fst (snd (photo d g token ''random''))) token =
            Some (r\<lparr>random_ids := Some ?s2, random_index := 0\<rparr>)"
      using assms one len
      by (simp add: photo_random random_branch_regen [OF assms(3) True assms(2) sh]
          getToken_updateTokenRandomState)
    then show ?thesis
      using True one len2
      by (intro exI [of _ ?s2] exI [of _ 0]) (simp add: mset_shuffle)
  next
    case False
    then have "1 < length s" using assms(2) len by simp
    then have "getToken (fst (snd (photo d g token ''random''))) token =
            Some (r\<lparr>random_ids := Some s, random_index := 1\<rparr>)"
      using assms
      by (simp add: photo_random random_branch_regen [OF assms(3) True assms(2) sh]
          getToken_updateTokenRandomState)
    then show ?thesis
      using True False ms \<open>1 < length s\<close>
      by (intro exI [of _ s] exI [of _ 1]) simp
  qed
next
  case False
  then obtain ids where ids: "random_ids r = Some ids" and idx: "random_index r < length ids"
    by (auto simp: needs_regen_def split: option.splits)
  let ?s = "fst (shuffle (getAllPictureIds d) g)"
  have len2: "0 < length ?s"
    using assms(2) by (simp add: length_shuffle length_getAllPictureIds)
  show ?thesis
  proof (cases "Suc (random_index r) < length ids")
    case True
    then have "getToken (fst (snd (photo d g token ''random''))) token =
            Some (r\<lparr>random_ids := Some ids, random_index := Suc (random_index r)\<rparr>)"
      using assms
      by (simp add: photo_random random_branch_cached [OF assms(3) ids idx]
          getToken_updateTokenRandomState)
    then show ?thesis
      using True False ids
      by (intro exI [of _ ids] exI [of _ "Suc (random_index r)"]) simp
  next
    case last: False
    then have "getToken (fst (snd (photo d g token ''random''))) token =
            Some (r\<lparr>random_ids := Some ?s, random_index := 0\<rparr>)"
      using assms
      by (simp add: photo_random random_branch_cached [OF assms(3) ids idx]
          getToken_updateTokenRandomState)
    then show ?thesis
      using last False ids len2
      by (intro exI [of _ ?s] exI [of _ 0]) (simp add: mset_shuffle)
  qed
qed

lemma getPictureById_updateTokenIndex:
  "getPictureById (updateTokenIndex d t i) = getPictureById d"
  by (simp add: getPictureById_def pictures_updateTokenIndex fun_eq_iff)

lemma getPictureById_updateTokenRandomState:
  "getPictureById (updateTokenRandomState d t ids i) = getPictureById d"
  by (simp add: getPictureById_def pictures_updateTokenRandomState fun_eq_iff)

lemma getPictureByIndex_updateTokenIndex:
  "getPictureByIndex (updateTokenIndex d t i) = getPictureByIndex d"
  by (simp add: getPictureByIndex_def pictures_updateTokenIndex fun_eq_iff)

lemma getPictureCount_updateTokenIndex:
  "getPictureCount (updateTokenIndex d t i) = getPictureCount d"
  by (simp add: getPictureCount_def pictures_updateTokenIndex)

lemma getPictureCount_updateTokenRandomState:
  "getPictureCount (updateTokenRandomState d t ids i) = getPictureCount d"
  by (simp add: getPictureCount_def pictures_updateTokenRandomState)

lemma getPictureByIndex_Some:
  "k < getPictureCount d \<Longrightarrow>
   getPictureByIndex d k = Some (sort_key pic_id (pictures d) ! k)"
  by (simp add: getPictureByIndex_def getPictureCount_def)

lemma scenario_1_eq:
  "scenario_1 =
     \<lparr>pictures = [picture_A], pictures_seq = 1, tags = [], tags_seq = 0, picture_tags = [],
      tokens = [''T'' \<mapsto> \<lparr>current_index = 0, random_ids = None, random_index = 0,
                           token_created_at = 0\<rparr>]\<rparr>"
  by (simp add: scenario_1_def gallery_A_eq photo_def getToken_def getPictureCount_def
      updateTokenIndex_def picture_A_def)

lemma scenario_2_eq:
  "scenario_2 =
     \<lparr>pictures = [picture_A, picture_B], pictures_seq = 2, tags = [], tags_seq = 0,
      picture_tags = [],
      tokens = [''T'' \<mapsto> \<lparr>current_index = 0, random_ids = None, random_index = 0,
                           token_created_at = 0\<rparr>]\<rparr>"
  by (simp add: scenario_2_def scenario_1_eq addPicture_def or_null_def picture_A_def
      picture_B_def)

lemma scenario_3_eq:
  "scenario_3 =
     \<lparr>pictures = [picture_A, picture_B], pictures_seq = 2, tags = [], tags_seq = 0,
      picture_tags = [],
      tokens = [''T'' \<mapsto> \<lparr>current_index = 1, random_ids = None, random_index = 0,
                           token_created_at = 0\<rparr>]\<rparr>"
  by (simp add: scenario_3_def scenario_2_eq photo_def getToken_def getPictureCount_def
      updateTokenIndex_def)

lemma scenario_responses:
  "fst (photo gallery_A zero_draws ''T'' ''next'') = photo_json picture_A"
  "fst (photo scenario_2 zero_draws ''T'' ''next'') = photo_json picture_A"
  "fst (photo scenario_3 zero_draws ''T'' ''next'') = photo_json picture_B"
  by (simp_all add: gallery_A_eq scenario_2_eq scenario_3_eq photo_def getToken_def
      getPictureCount_def getPictureByIndex_def respond_def picture_A_def picture_B_def)

lemma sequential_run:
  assumes "token \<noteq> []" and "mode \<noteq> ''random''"
  shows "0 < getPictureCount d \<Longrightarrow> getToken d token = Some r \<Longrightarrow>
         fst (deliveries k d g token mode) =
           map (\<lambda>i. respond (getPictureByIndex d ((current_index r + i) mod getPictureCount d)))
             [0..<k]"
proof (induction k arbitrary: d r)
  case 0
  then show ?case by simp
next
  case (Suc k)
  let ?n = "getPictureCount d"
  let ?c = "(current_index r mod ?n + 1) mod ?n"
  let ?d1 = "updateTokenIndex d token ?c"
  have step: "photo d g token mode =
                (respond (getPictureByIndex d (current_index r mod ?n)), ?d1, g)"
    using photo_sequential [OF assms(1) Suc.prems(1) Suc.prems(2) assms(2)] .
  have tok: "getToken ?d1 token = Some (r\<lparr>current_index := ?c\<rparr>)"
    using Suc.prems(2) by (rule getToken_updateTokenIndex)
  have cnt: "getPictureCount ?d1 = ?n"
    by (rule getPictureCount_updateTokenIndex)
  have ih: "fst (deliveries k ?d1 g token mode) =
              map (\<lambda>i. respond (getPictureByIndex d ((?c + i) mod ?n))) [0..<k]"
    using Suc.IH [of ?d1 "r\<lparr>current_index := ?c\<rparr>"] Suc.prems(1) tok cnt
    by (simp add: getPictureByIndex_updateTokenIndex)
  have shift: "(?c + i) mod ?n = (current_index r + Suc i) mod ?n" for i
    by (simp add: mod_simps)
  have "[0..<Suc k] = 0 # map Suc [0..<k]"
    by (simp add: upt_conv_Cons map_Suc_upt del: upt_Suc)
  then show ?case
    using step ih shift
    by (simp add: split_beta o_def del: upt_Suc)
qed

lemma sorted_ids: "sorted (getAllPictureIds d)"
  by (simp add: getAllPictureIds_def)

lemma set_getAllPictureIds: "set (getAllPictureIds d) = pic_id ` set (pictures d)"
  by (simp add: getAllPictureIds_def)

lemma distinct_getAllPictureIds:
  "distinct (map pic_id (pictures d)) \<Longrightarrow> distinct (getAllPictureIds d)"
proof -
  assume "distinct (map pic_id (pictures d))"
  moreover have "mset (getAllPictureIds d) = mset (map pic_id (pictures d))"
    by (simp add: getAllPictureIds_def)
  ultimately show ?thesis
    by (metis mset_eq_imp_distinct_iff)
qed

lemma ordinal_ids:
  "map (\<lambda>k. map_option pic_id (getPictureByIndex d k)) [0..<getPictureCount d] =
     map Some (getAllPictureIds d)"
  by (rule nth_equalityI)
     (simp_all add: getPictureByIndex_def getPictureCount_def getAllPictureIds_def)

lemma served_id_respond: "served_id (respond x) = map_option pic_id x"
  by (cases x) (simp_all add: respond_def photo_json_def)

lemma ordinal_id:
  "k < getPictureCount d \<Longrightarrow>
   map_option pic_id (getPictureByIndex d k) = Some (getAllPictureIds d ! k)"
  by (simp add: getPictureByIndex_def getPictureCount_def getAllPictureIds_def)

lemma random_run_cached:
  assumes "token \<noteq> []"
  shows "0 < getPictureCount d \<Longrightarrow> getToken d token = Some r \<Longrightarrow>
         random_ids r = Some ids \<Longrightarrow> random_index r + k \<le> length ids \<Longrightarrow>
         fst (deliveries k d g token ''random'') =
           map (\<lambda>i. respond (getPictureById d i)) (take k (drop (random_index r) ids))"
proof (induction k arbitrary: d r g)
  case 0
  then show ?case by simp
next
  case (Suc k)
  let ?i = "random_index r"
  have idx: "?i < length ids" using Suc.prems(4) by simp
  have tk: "take (Suc k) (drop ?i ids) = ids ! ?i # take k (drop (Suc ?i) ids)"
    using idx by (simp add: Cons_nth_drop_Suc [symmetric])
  show ?case
  proof (cases "Suc ?i < length ids")
    case True
    let ?d1 = "updateTokenRandomState d token ids (Suc ?i)"
    have step: "photo d g token ''random'' = (respond (getPictureById d (ids ! ?i)), ?d1, g)"
      using True
      by (simp add: photo_random [OF assms Suc.prems(1) Suc.prems(2)]
          random_branch_cached [OF Suc.prems(2) Suc.prems(3) idx])
    have tok: "getToken ?d1 token = Some (r\<lparr>random_ids := Some ids, random_index := Suc ?i\<rparr>)"
      using Suc.prems(2) by (rule getToken_updateTokenRandomState)
    have "fst (deliveries k ?d1 g token ''random'') =
            map (\<lambda>i. respond (getPictureById d i)) (take k (drop (Suc ?i) ids))"
      using Suc.IH [of ?d1 "r\<lparr>random_ids := Some ids, random_index := Suc ?i\<rparr>" g]
        Suc.prems(1) Suc.prems(4) tok
      by (simp add: getPictureCount_updateTokenRandomState
          getPictureById_updateTokenRandomState)
    then show ?thesis
      using step tk by (simp add: split_beta)
  next
    case False
    then have k0: "k = 0" using Suc.prems(4) by simp
    have "fst (photo d g token ''random'') = respond (getPictureById d (ids ! ?i))"
      by (simp add: photo_random [OF assms Suc.prems(1) Suc.prems(2)]
          random_branch_cached [OF Suc.prems(2) Suc.prems(3) idx])
    then show ?thesis
      using k0 tk by (simp add: split_beta)
  qed
qed

lemma random_run_regen:
  assumes "token \<noteq> []" and "0 < getPictureCount d" and "getToken d token = Some r"
    and "needs_regen (random_ids r) (random_index r)"
  shows "fst (deliveries (getPictureCount d) d g token ''random'') =
           map (\<lambda>i. respond (getPictureById d i)) (fst (shuffle (getAllPictureIds d) g))"
proof -
  obtain s g1 where sh: "shuffle (getAllPictureIds d) g = (s, g1)"
    by (cases "shuffle (getAllPictureIds d) g")
  have len: "length s = getPictureCount d"
    using length_shuffle [of "getAllPictureIds d" g] sh by (simp add: length_getAllPictureIds)
  obtain k where n: "getPictureCount d = Suc k"
    using assms(2) by (cases "getPictureCount d") simp_all
  have s: "map (\<lambda>i. respond (getPictureById d i)) (s ! 0 # drop 1 s) =
             map (\<lambda>i. respond (getPictureById d i)) s"
    using len n by (cases s) simp_all
  note rb = random_branch_regen [OF assms(3) assms(4) assms(2) sh]
  show ?thesis
  proof (cases "1 < length s")
    case True
    let ?d1 = "updateTokenRandomState d token s 1"
    have step: "photo d g token ''random'' = (respond (getPictureById d (s ! 0)), ?d1, g1)"
      using True by (simp add: photo_random [OF assms(1) assms(2) assms(3)] rb)
    have tok: "getToken ?d1 token = Some (r\<lparr>random_ids := Some s, random_index := 1\<rparr>)"
      using assms(3) by (rule getToken_updateTokenRandomState)
    have "fst (deliveries k ?d1 g1 token ''random'') =
            map (\<lambda>i. respond (getPictureById ?d1 i)) (take k (drop 1 s))"
      using random_run_cached [OF assms(1), of ?d1 "r\<lparr>random_ids := Some s, random_index := 1\<rparr>"
          s k g1] assms(2) tok len n
      by (simp add: getPictureCount_updateTokenRandomState)
    then have "fst (deliveries k ?d1 g1 token ''random'') =
            map (\<lambda>i. respond (getPictureById d i)) (drop 1 s)"
      using len n by (simp add: getPictureById_updateTokenRandomState)
    then have "fst (deliveries (Suc k) d g token ''random'') =
            map (\<lambda>i. respond (getPictureById d i)) (s ! 0 # drop 1 s)"
      using step by (simp add: split_beta)
    then show ?thesis
      using s sh n by (simp del: deliveries.simps)
  next
    case False
    then have k0: "k = 0" using len n by simp
    have "fst (photo d g token ''random'') = respond (getPictureById d (s ! 0))"
      by (simp add: photo_random [OF assms(1) assms(2) assms(3)] rb)
    then have "fst (deliveries (Suc k) d g token ''random'') =
            map (\<lambda>i. respond (getPictureById d i)) (s ! 0 # drop 1 s)"
      using k0 len n by (simp add: split_beta)
    then show ?thesis
      using s sh n by (simp del: deliveries.simps)
  qed
qed

lemma getPictureById_member:
  "i \<in> pic_id ` set (pictures d) \<Longrightarrow> map_option pic_id (getPictureById d i) = Some i"
proof -
  assume "i \<in> pic_id ` set (pictures d)"
  then obtain p where "getPictureById d i = Some p"
    unfolding getPictureById_def by (cases "find (\<lambda>p. pic_id p = i) (pictures d)")
      (auto simp: find_None_iff)
  moreover from this have "pic_id p = i"
    unfolding getPictureById_def by (auto simp: find_Some_iff)
  ultimately show ?thesis by simp
qed

lemma two_cycles_zero:
  "map served_id (fst (deliveries 4 gallery_AB zero_draws ''T'' ''random'')) =
     [Some 2, Some 1, Some 2, Some 1]"
  by code_simp

lemma two_cycles_alt:
  "map served_id (fst (deliveries 4 gallery_AB alt_draws ''T'' ''random'')) =
     [Some 2, Some 1, Some 1, Some 2]"
  by code_simp

section \<open>Tag normalization\<close>

lemma replace_runs_spec: "replace_runs P [0x2D] s = spec_collapse_runs P s"
  by (induction P s rule: spec_collapse_runs.induct) auto

lemma replace_runs_none: "\<forall>c\<in>set s. \<not> P c \<Longrightarrow> replace_runs P r s = s"
  by (induction s) simp_all

lemma hd_replace_runs:
  "s \<noteq> [] \<Longrightarrow> \<not> P (hd s) \<Longrightarrow> hd (replace_runs P r s) = hd s \<and> replace_runs P r s \<noteq> []"
  by (cases s) simp_all

lemma no_double_replace_runs: "no_double_hyphen (replace_runs is_hyphen [0x2D] s)"
proof (induction is_hyphen "[0x2D::nat]" s rule: replace_runs.induct)
  case 1
  then show ?case by (simp add: no_double_hyphen_def)
next
  case (2 c cs)
  show ?case
  proof (cases "is_hyphen c")
    case True
    let ?t = "dropWhile is_hyphen cs"
    have ih: "no_double_hyphen (replace_runs is_hyphen [0x2D] ?t)"
      using 2(1) True by simp
    show ?thesis
    proof (cases "?t = []")
      case e: True
      then show ?thesis
        using True by (simp add: no_double_hyphen_def del: dropWhile_eq_Nil_conv)
    next
      case False
      then have "\<not> is_hyphen (hd ?t)" by (rule hd_dropWhile)
      then have "\<not> is_hyphen (hd (replace_runs is_hyphen [0x2D] ?t))"
        using False hd_replace_runs [of ?t is_hyphen "[0x2D]"] by simp
      then show ?thesis
        using True ih by (simp add: no_double_hyphen_def successively_Cons)
    qed
  next
    case False
    then show ?thesis
      using 2(2) by (simp add: no_double_hyphen_def successively_Cons)
  qed
qed

lemma set_replace_runs: "set (replace_runs P r s) \<subseteq> set s \<union> set r"
proof (induction P r s rule: replace_runs.induct)
  case (1 P r)
  then show ?case by simp
next
  case (2 P r c cs)
  have "set (dropWhile P cs) \<subseteq> set cs" by (rule set_dropWhileD [THEN subsetI])
  then show ?case using 2 by auto
qed

lemma strip_edge_spec:
  assumes "no_double_hyphen t"
  shows "strip_edge_hyphens t = spec_trim_hyphens t"
proof -
  let ?Q = "\<lambda>a b. \<not> (is_hyphen a \<and> is_hyphen b)"
  have drop1: "(case u of [] \<Rightarrow> [] | c # cs \<Rightarrow> if is_hyphen c then cs else u) =
                 dropWhile is_hyphen u" if "successively ?Q u" for u
  proof (cases u)
    case Nil
    then show ?thesis by simp
  next
    case (Cons c cs)
    then show ?thesis using that by (cases cs) (simp_all add: successively_Cons)
  qed
  define s1 where "s1 = dropWhile is_hyphen t"
  have s1: "(case t of [] \<Rightarrow> [] | c # cs \<Rightarrow> if is_hyphen c then cs else t) = s1"
    using drop1 [of t] assms by (simp add: no_double_hyphen_def s1_def)
  have "successively ?Q s1"
    using assms unfolding s1_def
    by (metis (no_types, lifting) no_double_hyphen_def successively_append_iff
        takeWhile_dropWhile_id)
  then have r: "successively ?Q (rev s1)"
    by (auto elim: successively_mono)
  have "(if s1 \<noteq> [] \<and> is_hyphen (last s1) then butlast s1 else s1) =
          rev (dropWhile is_hyphen (rev s1))"
  proof (cases s1 rule: rev_cases)
    case Nil
    then show ?thesis by simp
  next
    case (snoc ys y)
    then show ?thesis
      using drop1 [OF r] by (simp split: if_splits)
  qed
  then have "strip_edge_hyphens t = rev (dropWhile is_hyphen (rev s1))"
    using s1 by (simp add: strip_edge_hyphens_def Let_def)
  then show ?thesis
    by (simp add: spec_trim_hyphens_def s1_def)
qed

lemma normalizeTag_spec: "normalizeTag lower x = spec_normalize lower x"
proof (cases x)
  case (JStr s)
  then show ?thesis
    using strip_edge_spec [OF no_double_replace_runs]
    by (simp add: replace_runs_spec [symmetric])
next
  case JOther
  then show ?thesis by simp
qed

lemma no_double_dropWhile: "no_double_hyphen t \<Longrightarrow> no_double_hyphen (dropWhile P t)"
  unfolding no_double_hyphen_def
  by (metis (no_types, lifting) successively_append_iff takeWhile_dropWhile_id)

lemma no_double_rev: "no_double_hyphen (rev t) = no_double_hyphen t"
  unfolding no_double_hyphen_def by (auto elim: successively_mono)

lemma trim_edges:
  "spec_trim_hyphens t = [] \<or>
   (\<not> is_hyphen (hd (spec_trim_hyphens t)) \<and> \<not> is_hyphen (last (spec_trim_hyphens t)))"
proof -
  define u where "u = dropWhile is_hyphen t"
  define v where "v = dropWhile is_hyphen (rev u)"
  have out: "spec_trim_hyphens t = rev v"
    by (simp add: spec_trim_hyphens_def u_def v_def)
  show ?thesis
  proof (cases "v = []")
    case True
    then show ?thesis using out by simp
  next
    case False
    then have hv: "\<not> is_hyphen (hd v)"
      unfolding v_def by (rule hd_dropWhile)
    have "rev u = takeWhile is_hyphen (rev u) @ v"
      by (simp add: v_def)
    then have "last (rev u) = last v"
      using False by (metis last_appendR)
    moreover have "u \<noteq> []" using False by (auto simp: v_def)
    moreover from this have "\<not> is_hyphen (hd u)"
      unfolding u_def by (rule hd_dropWhile)
    ultimately have "\<not> is_hyphen (last v)"
      by (simp add: last_rev)
    then show ?thesis
      using out hv False by (simp add: hd_rev last_rev)
  qed
qed

lemma normalizeTag_is_slug: "is_slug (normalizeTag lower x)"
proof (cases x)
  case JOther
  then show ?thesis by (simp add: is_slug_def no_double_hyphen_def)
next
  case (JStr s)
  define t where
    "t = replace_runs is_hyphen [0x2D]
           (filter is_slug_char (replace_runs is_space [0x2D] (lower s)))"
  have out: "normalizeTag lower x = spec_trim_hyphens t"
    using JStr strip_edge_spec [OF no_double_replace_runs] by (simp add: t_def)
  have "set t \<subseteq> set (filter is_slug_char (replace_runs is_space [0x2D] (lower s)))
                 \<union> set [0x2D]"
    unfolding t_def by (rule set_replace_runs)
  then have "\<forall>c\<in>set t. is_slug_char c"
    by (auto simp: is_slug_char_def)
  moreover have "set (spec_trim_hyphens t) \<subseteq> set t"
    unfolding spec_trim_hyphens_def by (auto dest!: set_dropWhileD)
  ultimately have a: "list_all is_slug_char (spec_trim_hyphens t)"
    by (auto simp: list_all_iff)
  have "no_double_hyphen t"
    unfolding t_def by (rule no_double_replace_runs)
  then have b: "no_double_hyphen (spec_trim_hyphens t)"
    unfolding spec_trim_hyphens_def
    by (simp add: no_double_rev no_double_dropWhile)
  show ?thesis
    using a b trim_edges [of t] out by (simp add: is_slug_def)
qed

lemma slug_char_ascii: "is_slug_char c \<Longrightarrow> c < 128 \<and> ascii_toLowerCase c = c"
  by (auto simp: is_slug_char_def ascii_toLowerCase_def)

lemma toLowerCase_slug:
  assumes "toLowerCase_on_ascii lower" and "\<forall>c\<in>set s. is_slug_char c"
  shows "lower s = s"
proof -
  have "lower s = map ascii_toLowerCase s"
    using assms by (simp add: toLowerCase_on_ascii_def slug_char_ascii)
  then show ?thesis
    using assms(2) by (simp add: map_idI slug_char_ascii)
qed

lemma slug_char_not_space: "is_slug_char c \<Longrightarrow> \<not> is_space c"
  by (auto simp: is_slug_char_def is_space_def)

lemma replace_runs_no_double:
  "no_double_hyphen s \<Longrightarrow> replace_runs is_hyphen [0x2D] s = s"
proof (induction s)
  case Nil
  then show ?case by simp
next
  case (Cons c cs)
  from Cons.prems have tl: "no_double_hyphen cs"
    by (auto simp: no_double_hyphen_def successively_Cons)
  show ?case
  proof (cases "is_hyphen c")
    case True
    then have "dropWhile is_hyphen cs = cs"
      using Cons.prems by (cases cs) (auto simp: no_double_hyphen_def)
    moreover have "c = 0x2D"
      using True by (simp add: is_hyphen_def)
    ultimately show ?thesis
      using True Cons.IH [OF tl] by simp
  next
    case False
    then show ?thesis using Cons.IH [OF tl] by simp
  qed
qed

lemma strip_edge_fix:
  "s = [] \<or> (\<not> is_hyphen (hd s) \<and> \<not> is_hyphen (last s)) \<Longrightarrow> strip_edge_hyphens s = s"
  by (cases s) (auto simp: strip_edge_hyphens_def)

lemma normalizeTag_slug_fix:
  assumes "toLowerCase_on_ascii lower" and "is_slug s"
  shows "normalizeTag lower (JStr s) = s"
proof -
  have chars: "\<forall>c\<in>set s. is_slug_char c"
    using assms(2) by (simp add: is_slug_def list_all_iff)
  have 1: "lower s = s"
    using assms(1) chars by (rule toLowerCase_slug)
  have 2: "replace_runs is_space [0x2D] s = s"
    using chars by (simp add: replace_runs_none slug_char_not_space)
  have 3: "filter is_slug_char s = s"
    using chars by simp
  have 4: "replace_runs is_hyphen [0x2D] s = s"
    using assms(2) by (simp add: is_slug_def replace_runs_no_double)
  have 5: "strip_edge_hyphens s = s"
    using assms(2) by (simp add: is_slug_def strip_edge_fix)
  show ?thesis
    by (simp add: 1 2 3 4 5)
qed

lemma normalizeTag_on_ascii:
  assumes "toLowerCase_on_ascii lower" and "\<forall>c\<in>set s. c < 128"
  shows "normalizeTag lower (JStr s) = normalizeTag (map ascii_toLowerCase) (JStr s)"
  using assms by (simp add: toLowerCase_on_ascii_def)

lemma lower_example_on_ascii: "toLowerCase_on_ascii lower_example"
proof -
  have "lower_example s = map ascii_toLowerCase s" if "\<forall>c\<in>set s. c < 128" for s
    using that
    by (induction s) (auto simp: lower_example_def lower_example_unit_def ascii_toLowerCase_def)
  then show ?thesis
    by (simp add: toLowerCase_on_ascii_def)
qed

lemma paris_2024:
  assumes "toLowerCase_on_ascii lower"
  shows "normalizeTag lower (JStr (units ''  Paris, 2024!! '')) = units ''paris-2024''"
proof -
  have "\<forall>c\<in>set (units ''  Paris, 2024!! ''). c < 128"
    by (simp add: units_def)
  with assms have "normalizeTag lower (JStr (units ''  Paris, 2024!! '')) =
             normalizeTag (map ascii_toLowerCase) (JStr (units ''  Paris, 2024!! ''))"
    by (rule normalizeTag_on_ascii)
  also have "\<dots> = units ''paris-2024''"
    by (simp add: units_def ascii_toLowerCase_def is_space_def is_slug_char_def is_hyphen_def
        strip_edge_hyphens_def)
  finally show ?thesis .
qed

text \<open>
  C7. Tag normalization is a function of its argument alone and, whatever
  \<open>toLowerCase\<close> does to strings that are not ASCII, it is idempotent on every input:
  normalizing a normalized name changes nothing. A value that is not a string and the
  empty string both give the empty slug. It computes what the specification's pipeline
  computes (lowercase, whitespace runs to one hyphen, strip outside \<open>[a-z0-9-]\<close>,
  collapse hyphen runs, trim hyphens at both ends), and it maps
  \<open>"  Paris, 2024!! "\<close> to \<open>"paris-2024"\<close>.
\<close>

theorem normalizeTag_idempotent:
  assumes "toLowerCase_on_ascii lower"
  shows "normalizeTag lower (JStr (normalizeTag lower x)) = normalizeTag lower x \<and>
         normalizeTag lower JOther = [] \<and> normalizeTag lower (JStr []) = [] \<and>
         normalizeTag lower x = spec_normalize lower x \<and>
         normalizeTag lower (JStr (units ''  Paris, 2024!! '')) = units ''paris-2024''"
proof -
  have "is_slug []"
    by (simp add: is_slug_def no_double_hyphen_def)
  with assms have "normalizeTag lower (JStr []) = []"
    by (rule normalizeTag_slug_fix)
  then show ?thesis
    using normalizeTag_slug_fix [OF assms normalizeTag_is_slug] normalizeTag_spec
      paris_2024 [OF assms]
    by simp
qed

theorem normalizeTag_idempotent_witness:
  "normalizeTag lower_example
     (JStr ([0x2003, 0x212A] @ units ''--A  b'' @ [0x3000, 0x0130] @ units ''--c__D--'')) =
     units ''k-a-b-i-cd'' \<and>
   normalizeTag lower_example (JStr (units ''k-a-b-i-cd'')) = units ''k-a-b-i-cd'' \<and>
   spec_normalize lower_example
     (JStr ([0x2003, 0x212A] @ units ''--A  b'' @ [0x3000, 0x0130] @ units ''--c__D--'')) =
     units ''k-a-b-i-cd''"
proof -
  have e: "normalizeTag lower_example
     (JStr ([0x2003, 0x212A] @ units ''--A  b'' @ [0x3000, 0x0130] @ units ''--c__D--'')) =
     units ''k-a-b-i-cd''"
    by (simp add: units_def lower_example_def lower_example_unit_def is_space_def
        is_slug_char_def is_hyphen_def strip_edge_hyphens_def)
  show ?thesis
    using normalizeTag_idempotent [OF lower_example_on_ascii,
        of "JStr ([0x2003, 0x212A] @ units ''--A  b'' @ [0x3000, 0x0130] @ units ''--c__D--'')"] e
    by metis
qed

section \<open>Tags of a picture\<close>























section \<open>Sequential mode\<close>

text \<open>
  C1, as stated, fails: the cursor stored is reduced modulo the size of the collection
  when it is written. With the single picture A and cursor 0, the delivery serves A
  and stores 0, not 1; once B is added the next delivery serves A again, not B.
\<close>

theorem sequential_cursor_is_reduced:
  "getPictureCount gallery_A = 1 \<and> stored_cursor gallery_A ''T'' = Some 0 \<and>
   fst (photo gallery_A zero_draws ''T'' ''next'') = photo_json picture_A \<and>
   stored_cursor scenario_1 ''T'' \<noteq> Some (0 + 1) \<and>
   fst (photo scenario_2 zero_draws ''T'' ''next'') \<noteq> photo_json picture_B"
proof -
  have "getPictureCount gallery_A = 1" "stored_cursor gallery_A ''T'' = Some 0"
    "stored_cursor scenario_1 ''T'' \<noteq> Some (0 + 1)"
    by (simp_all add: stored_cursor_def getToken_def gallery_A_eq scenario_1_eq
        getPictureCount_def)
  moreover have "photo_json picture_A \<noteq> photo_json picture_B"
    by (simp add: photo_json_def picture_A_def picture_B_def)
  ultimately show ?thesis
    by (simp add: scenario_responses)
qed

text \<open>
  C1, amended. A sequential delivery against a collection of \<open>n > 0\<close> pictures, with a
  token whose stored cursor is \<open>c\<close>, serves the picture at ordinal \<open>c mod n\<close> (which
  exists) and stores \<open>((c mod n) + 1) mod n\<close>. In the scenario: A exists and T delivers
  once, serving A and storing 0; B is added; the next delivery serves A (ordinal 0)
  and stores 1; the one after serves B (ordinal 1).
\<close>

theorem sequential_delivery_step:
  assumes "token \<noteq> []" and "0 < getPictureCount d" and "getToken d token = Some r"
    and "mode \<noteq> ''random''"
  shows "photo d g token mode =
           (respond (getPictureByIndex d (current_index r mod getPictureCount d)),
            updateTokenIndex d token
              ((current_index r mod getPictureCount d + 1) mod getPictureCount d), g) \<and>
         getPictureByIndex d (current_index r mod getPictureCount d) =
           Some (sort_key pic_id (pictures d) ! (current_index r mod getPictureCount d)) \<and>
         stored_cursor (fst (snd (photo d g token mode))) token =
           Some ((current_index r mod getPictureCount d + 1) mod getPictureCount d) \<and>
         fst (photo gallery_A zero_draws ''T'' ''next'') = photo_json picture_A \<and>
         stored_cursor scenario_1 ''T'' = Some 0 \<and>
         fst (photo scenario_2 zero_draws ''T'' ''next'') = photo_json picture_A \<and>
         stored_cursor scenario_3 ''T'' = Some 1 \<and>
         fst (photo scenario_3 zero_draws ''T'' ''next'') = photo_json picture_B"
proof -
  have "stored_cursor scenario_1 ''T'' = Some 0" "stored_cursor scenario_3 ''T'' = Some 1"
    by (simp_all add: stored_cursor_def getToken_def scenario_1_eq scenario_3_eq)
  then show ?thesis
    using assms
    by (simp add: photo_sequential scenario_responses getPictureByIndex_Some
        stored_cursor_def getToken_updateTokenIndex)
qed

theorem sequential_delivery_step_witness:
  "photo scenario_3 zero_draws ''T'' ''next'' =
     (respond (getPictureByIndex scenario_3 1), updateTokenIndex scenario_3 ''T'' 0, zero_draws) \<and>
   getPictureByIndex scenario_3 1 = Some picture_B \<and>
   stored_cursor (fst (snd (photo scenario_3 zero_draws ''T'' ''next''))) ''T'' = Some 0"
proof -
  have h: "''T'' \<noteq> []" "0 < getPictureCount scenario_3"
    "getToken scenario_3 ''T'' =
       Some \<lparr>current_index = 1, random_ids = None, random_index = 0, token_created_at = 0\<rparr>"
    "''next'' \<noteq> ''random''"
    by (simp_all add: scenario_3_eq getToken_def getPictureCount_def)
  have n: "getPictureCount scenario_3 = 2"
    "sort_key pic_id (pictures scenario_3) ! 1 = picture_B"
    by (simp_all add: scenario_3_eq getPictureCount_def picture_A_def picture_B_def)
  show ?thesis
    using sequential_delivery_step [OF h, of zero_draws] n by auto
qed

text \<open>
  C2. For a collection of \<open>n > 0\<close> pictures that does not change, \<open>n + 1\<close> sequential
  deliveries with one token, from stored cursor 0, serve the ordinals
  \<open>0, 1, ..., n - 1\<close> and then 0 again: the ids served are all the ids of the
  collection, each once, in strictly ascending order, followed by the smallest.
\<close>

theorem sequential_cycle:
  assumes "token \<noteq> []" and "mode \<noteq> ''random''"
    and "distinct (map pic_id (pictures d))" and "0 < getPictureCount d"
    and "getToken d token = Some r" and "current_index r = 0"
  shows "fst (deliveries (Suc (getPictureCount d)) d g token mode) =
           map (\<lambda>k. respond (getPictureByIndex d k)) ([0..<getPictureCount d] @ [0]) \<and>
         map served_id (fst (deliveries (Suc (getPictureCount d)) d g token mode)) =
           map Some (getAllPictureIds d @ [getAllPictureIds d ! 0]) \<and>
         sorted_wrt (<) (getAllPictureIds d) \<and>
         set (getAllPictureIds d) = pic_id ` set (pictures d) \<and>
         length (getAllPictureIds d) = getPictureCount d"
proof -
  let ?n = "getPictureCount d"
  let ?f = "\<lambda>k. respond (getPictureByIndex d k)"
  have run: "fst (deliveries (Suc ?n) d g token mode) = map (\<lambda>i. ?f (i mod ?n)) [0..<Suc ?n]"
    using sequential_run [OF assms(1) assms(2) assms(4) assms(5), of "Suc ?n" g] assms(6)
    by simp
  have "map (\<lambda>i. ?f (i mod ?n)) [0..<?n] = map ?f [0..<?n]"
    by (rule map_cong) simp_all
  then have resp: "fst (deliveries (Suc ?n) d g token mode) = map ?f ([0..<?n] @ [0])"
    using run by simp
  have "map served_id (map ?f ([0..<?n] @ [0])) =
          map (\<lambda>k. map_option pic_id (getPictureByIndex d k)) [0..<?n] @
          [map_option pic_id (getPictureByIndex d 0)]"
    by (simp add: served_id_respond o_def)
  also have "\<dots> = map Some (getAllPictureIds d @ [getAllPictureIds d ! 0])"
    using ordinal_id [OF assms(4)] by (simp add: ordinal_ids)
  finally have ids: "map served_id (fst (deliveries (Suc ?n) d g token mode)) =
          map Some (getAllPictureIds d @ [getAllPictureIds d ! 0])"
    using resp by simp
  have "sorted_wrt (<) (getAllPictureIds d)"
    using sorted_ids [of d] distinct_getAllPictureIds [OF assms(3)]
    by (simp add: strict_sorted_iff)
  then show ?thesis
    using resp ids by (simp add: set_getAllPictureIds length_getAllPictureIds)
qed

theorem sequential_cycle_witness:
  "map served_id (fst (deliveries 3 gallery_AB zero_draws ''T'' ''next'')) =
     [Some 1, Some 2, Some 1] \<and>
   getAllPictureIds gallery_AB = [1, 2]"
proof -
  have h: "''T'' \<noteq> []" "''next'' \<noteq> ''random''"
    "distinct (map pic_id (pictures gallery_AB))" "0 < getPictureCount gallery_AB"
    "getToken gallery_AB ''T'' =
       Some \<lparr>current_index = 0, random_ids = None, random_index = 0, token_created_at = 0\<rparr>"
    "current_index \<lparr>current_index = 0, random_ids = None, random_index = 0,
       token_created_at = 0\<rparr> = 0"
    by (simp_all add: gallery_AB_eq getToken_def getPictureCount_def)
  have n: "Suc (getPictureCount gallery_AB) = 3" "getAllPictureIds gallery_AB = [1, 2]"
    by (simp_all add: gallery_AB_eq getPictureCount_def getAllPictureIds_def)
  have "map served_id
          (fst (deliveries (Suc (getPictureCount gallery_AB)) gallery_AB zero_draws ''T'' ''next'')) =
        map Some (getAllPictureIds gallery_AB @ [getAllPictureIds gallery_AB ! 0])"
    using sequential_cycle [OF h, of zero_draws] by blast
  then show ?thesis
    by (simp add: n)
qed

section \<open>Randomized mode\<close>

text \<open>
  C3. For a collection of \<open>n > 0\<close> pictures that does not change, \<open>n\<close> randomized
  deliveries with one token, from a stored state that asks for regeneration (no
  permutation, an empty one, or a cursor at or past its end), serve the pictures in
  the order of the permutation just drawn, which holds every current id exactly once.
  Nothing relates two consecutive cycles: on the two-picture gallery one stream of
  draws repeats the order and another reverses it.
\<close>

theorem randomized_cycle:
  assumes "token \<noteq> []" and "distinct (map pic_id (pictures d))"
    and "0 < getPictureCount d" and "getToken d token = Some r"
    and "needs_regen (random_ids r) (random_index r)"
  shows "(let perm = fst (shuffle (getAllPictureIds d) g);
              rs = fst (deliveries (getPictureCount d) d g token ''random'')
          in rs = map (\<lambda>i. respond (getPictureById d i)) perm \<and>
             map served_id rs = map Some perm \<and>
             mset perm = mset (getAllPictureIds d) \<and> distinct perm \<and>
             set perm = pic_id ` set (pictures d)) \<and>
         map served_id (fst (deliveries 4 gallery_AB zero_draws ''T'' ''random'')) =
           [Some 2, Some 1, Some 2, Some 1] \<and>
         map served_id (fst (deliveries 4 gallery_AB alt_draws ''T'' ''random'')) =
           [Some 2, Some 1, Some 1, Some 2]"
proof -
  let ?perm = "fst (shuffle (getAllPictureIds d) g)"
  let ?rs = "fst (deliveries (getPictureCount d) d g token ''random'')"
  have ms: "mset ?perm = mset (getAllPictureIds d)"
    by (rule mset_shuffle)
  then have st: "set ?perm = pic_id ` set (pictures d)"
    by (metis set_mset_mset set_getAllPictureIds)
  have di: "distinct ?perm"
    using ms distinct_getAllPictureIds [OF assms(2)] by (metis mset_eq_imp_distinct_iff)
  have rs: "?rs = map (\<lambda>i. respond (getPictureById d i)) ?perm"
    using random_run_regen [OF assms(1) assms(3) assms(4) assms(5)] .
  have "map served_id (map (\<lambda>i. respond (getPictureById d i)) ?perm) = map Some ?perm"
    using st by (simp add: served_id_respond getPictureById_member)
  then have "map served_id ?rs = map Some ?perm"
    using rs by simp
  then show ?thesis
    using rs ms di st two_cycles_zero two_cycles_alt by (simp add: Let_def)
qed

theorem randomized_cycle_witness:
  "needs_regen None 0 \<and> needs_regen (Some []) 0 \<and> needs_regen (Some [2, 1]) 2 \<and>
   fst (shuffle (getAllPictureIds gallery_AB) zero_draws) = [2, 1] \<and>
   map served_id (fst (deliveries 2 gallery_AB zero_draws ''T'' ''random'')) = [Some 2, Some 1]"
proof -
  have h: "''T'' \<noteq> []" "distinct (map pic_id (pictures gallery_AB))"
    "0 < getPictureCount gallery_AB"
    "getToken gallery_AB ''T'' =
       Some \<lparr>current_index = 0, random_ids = None, random_index = 0, token_created_at = 0\<rparr>"
    "needs_regen (random_ids \<lparr>current_index = 0, random_ids = None, random_index = 0,
       token_created_at = 0\<rparr>) (random_index \<lparr>current_index = 0, random_ids = None,
       random_index = 0, token_created_at = 0\<rparr>)"
    by (simp_all add: gallery_AB_eq getToken_def getPictureCount_def needs_regen_def)
  have n: "getPictureCount gallery_AB = 2"
    "fst (shuffle (getAllPictureIds gallery_AB) zero_draws) = [2, 1]"
    by (simp_all add: gallery_AB_eq getPictureCount_def getAllPictureIds_def shuffle_12_zero)
  have "map served_id
          (fst (deliveries (getPictureCount gallery_AB) gallery_AB zero_draws ''T'' ''random'')) =
        map Some (fst (shuffle (getAllPictureIds gallery_AB) zero_draws))"
    using randomized_cycle [OF h, of zero_draws] unfolding Let_def by blast
  then show ?thesis
    by (simp add: n needs_regen_def)
qed

section \<open>Error outcomes of a delivery\<close>

text \<open>
  C6. A delivery request (one that carries a token) against a gallery with no
  pictures is answered with the empty-collection outcome in sequential and in
  randomized mode alike, whatever the token, and the caller can tell this outcome
  from the generic not-found one; the database and the random stream are untouched.
\<close>

theorem empty_gallery_EmptyCollection:
  assumes "token \<noteq> []" and "getPictureCount d = 0"
  shows "photo d g token ''next'' = (EmptyCollection, d, g) \<and>
         photo d g token ''random'' = (EmptyCollection, d, g) \<and>
         photo d g token mode = (EmptyCollection, d, g) \<and>
         EmptyCollection \<noteq> NotFound"
  using assms by (simp add: photo_def EmptyCollection_def NotFound_def)

theorem empty_gallery_EmptyCollection_witness:
  "fst (photo empty_db (\<lambda>n. 0) ''T'' ''next'') = EmptyCollection \<and>
   fst (photo empty_db (\<lambda>n. 0) ''T'' ''random'') = EmptyCollection \<and>
   EmptyCollection \<noteq> NotFound"
  using empty_gallery_EmptyCollection [of "''T''" empty_db "\<lambda>n. 0"]
  by (simp add: getPictureCount_def empty_db_def)

text \<open>
  C5, as stated, fails: against a gallery with no pictures the handler answers the
  empty-collection outcome before it looks the token up, so an unknown token is not
  answered with Forbidden there.
\<close>

theorem unknown_token_not_always_Forbidden:
  "getToken empty_db ''X'' = None \<and>
   fst (photo empty_db zero_draws ''X'' ''next'') = EmptyCollection \<and>
   fst (photo empty_db zero_draws ''X'' ''random'') = EmptyCollection \<and>
   EmptyCollection \<noteq> Forbidden"
  by (simp add: photo_def getToken_def getPictureCount_def empty_db_def
      EmptyCollection_def Forbidden_def)

text \<open>
  C5, amended. For every delivery request presenting a token that the token registry
  does not hold (never created, or deleted), against a gallery that holds at least one
  picture, in either mode, the outcome is Forbidden, the same response for a token
  that never existed and for one that was deleted, and nothing is written.
\<close>

theorem unknown_token_Forbidden:
  assumes "token \<noteq> []" and "0 < getPictureCount d"
  shows "(getToken d token = None \<longrightarrow> photo d g token mode = (Forbidden, d, g)) \<and>
         photo (fst (deleteToken d token)) g token mode =
           (Forbidden, fst (deleteToken d token), g)"
  using assms
  by (simp add: photo_def Forbidden_def getToken_def getPictureCount_def deleteToken_def)

theorem unknown_token_Forbidden_witness:
  "getToken gallery_A ''X'' = None \<and> getToken gallery_A ''T'' \<noteq> None \<and>
   fst (photo gallery_A zero_draws ''X'' ''random'') = Forbidden \<and>
   fst (photo gallery_A zero_draws ''X'' ''next'') = Forbidden \<and>
   fst (photo (fst (deleteToken gallery_A ''T'')) zero_draws ''T'' ''next'') = Forbidden"
  using unknown_token_Forbidden [of "''X''" gallery_A zero_draws "''random''"]
    unknown_token_Forbidden [of "''X''" gallery_A zero_draws "''next''"]
    unknown_token_Forbidden [of "''T''" gallery_A zero_draws "''next''"]
  by (simp add: gallery_A_eq getToken_def getPictureCount_def)

text \<open>
  C4, as stated, fails when the deleted picture was the last one: the handler answers
  the empty-collection outcome, which is not the NotFound outcome, before it reads the
  cached permutation.
\<close>

theorem stale_id_in_empty_gallery:
  "getToken gallery_emptied ''T'' =
     Some \<lparr>current_index = 0, random_ids = Some [1], random_index = 0,
           token_created_at = 0\<rparr> \<and>
   getPictureById gallery_emptied ([1] ! 0) = None \<and>
   fst (photo gallery_emptied zero_draws ''T'' ''random'') = EmptyCollection \<and>
   EmptyCollection \<noteq> NotFound"
  by (simp add: gallery_emptied_eq getToken_def getPictureById_def photo_def
      getPictureCount_def EmptyCollection_def NotFound_def)

text \<open>
  C4, amended. In randomized mode, against a gallery that still holds a picture, when
  the cached permutation's entry at the cursor is an id that no picture has any more,
  the delivery answers NotFound: no picture is served, neither the next entry's nor
  any other.
\<close>

theorem stale_id_NotFound:
  assumes "token \<noteq> []" and "0 < getPictureCount d" and "getToken d token = Some r"
    and "random_ids r = Some ids" and "random_index r < length ids"
    and "getPictureById d (ids ! random_index r) = None"
  shows "fst (photo d g token ''random'') = NotFound \<and>
         (\<forall>q. fst (photo d g token ''random'') \<noteq> photo_json q)"
  using assms
  by (simp add: photo_random random_branch_cached respond_def NotFound_def photo_json_def)

theorem stale_id_NotFound_witness:
  "getToken gallery_stale ''T'' =
     Some \<lparr>current_index = 0, random_ids = Some [2, 1], random_index = 1,
           token_created_at = 0\<rparr> \<and>
   getPictureById gallery_stale ([2, 1] ! 1) = None \<and>
   getPictureById gallery_stale 2 \<noteq> None \<and>
   fst (photo gallery_stale zero_draws ''T'' ''random'') = NotFound"
  using stale_id_NotFound [of "''T''" gallery_stale
      "\<lparr>current_index = 0, random_ids = Some [2, 1], random_index = 1, token_created_at = 0\<rparr>"
      "[2, 1]" zero_draws]
  by (simp add: gallery_stale_eq getToken_def getPictureCount_def getPictureById_def)

section \<open>The stored state of a token\<close>

text \<open>
  C9. In randomized mode, with a valid cached position, every delivery that gets past
  the token and count checks, and so every delivery that answers NotFound, stores the
  advanced state whatever the lookup of the id at the cursor gives: the cursor
  incremented, or, past the last entry, a newly drawn permutation with cursor 0. When
  the id at the cursor resolves to no picture the answer is NotFound, with the state
  advanced all the same.
\<close>

theorem random_state_advanced_on_NotFound:
  assumes "getToken d token = Some r" and "random_ids r = Some ids"
    and "random_index r < length ids"
  shows "((token \<noteq> [] \<and> 0 < getPictureCount d) \<or>
          fst (photo d g token ''random'') = NotFound \<longrightarrow>
            snd (photo d g token ''random'') =
              (if Suc (random_index r) < length ids
               then (updateTokenRandomState d token ids (Suc (random_index r)), g)
               else (updateTokenRandomState d token (fst (shuffle (getAllPictureIds d) g)) 0,
                     snd (shuffle (getAllPictureIds d) g))) \<and>
            getToken (fst (snd (photo d g token ''random''))) token =
              Some (if Suc (random_index r) < length ids
                    then r\<lparr>random_ids := Some ids, random_index := Suc (random_index r)\<rparr>
                    else r\<lparr>random_ids := Some (fst (shuffle (getAllPictureIds d) g)),
                           random_index := 0\<rparr>)) \<and>
         (token \<noteq> [] \<and> 0 < getPictureCount d \<and>
          getPictureById d (ids ! random_index r) = None \<longrightarrow>
            fst (photo d g token ''random'') = NotFound)"
proof -
  have adv: "snd (photo d g token ''random'') =
              (if Suc (random_index r) < length ids
               then (updateTokenRandomState d token ids (Suc (random_index r)), g)
               else (updateTokenRandomState d token (fst (shuffle (getAllPictureIds d) g)) 0,
                     snd (shuffle (getAllPictureIds d) g))) \<and>
            getToken (fst (snd (photo d g token ''random''))) token =
              Some (if Suc (random_index r) < length ids
                    then r\<lparr>random_ids := Some ids, random_index := Suc (random_index r)\<rparr>
                    else r\<lparr>random_ids := Some (fst (shuffle (getAllPictureIds d) g)),
                           random_index := 0\<rparr>)"
    if "token \<noteq> []" and "0 < getPictureCount d"
    using that assms
    by (simp add: photo_random random_branch_cached getToken_updateTokenRandomState)
  have nf: "fst (photo d g token ''random'') = NotFound"
    if "token \<noteq> []" and "0 < getPictureCount d"
      and "getPictureById d (ids ! random_index r) = None"
    using that assms
    by (simp add: photo_random random_branch_cached respond_def NotFound_def)
  have gate: "token \<noteq> [] \<and> 0 < getPictureCount d"
    if "(token \<noteq> [] \<and> 0 < getPictureCount d) \<or>
        fst (photo d g token ''random'') = NotFound"
    using that photo_NotFound_reached [of d g token "''random''"] by blast
  show ?thesis
  proof (rule conjI)
    show "(token \<noteq> [] \<and> 0 < getPictureCount d) \<or>
          fst (photo d g token ''random'') = NotFound \<longrightarrow>
            snd (photo d g token ''random'') =
              (if Suc (random_index r) < length ids
               then (updateTokenRandomState d token ids (Suc (random_index r)), g)
               else (updateTokenRandomState d token (fst (shuffle (getAllPictureIds d) g)) 0,
                     snd (shuffle (getAllPictureIds d) g))) \<and>
            getToken (fst (snd (photo d g token ''random''))) token =
              Some (if Suc (random_index r) < length ids
                    then r\<lparr>random_ids := Some ids, random_index := Suc (random_index r)\<rparr>
                    else r\<lparr>random_ids := Some (fst (shuffle (getAllPictureIds d) g)),
                           random_index := 0\<rparr>)"
    proof (rule impI)
      assume a: "(token \<noteq> [] \<and> 0 < getPictureCount d) \<or>
                 fst (photo d g token ''random'') = NotFound"
      show "snd (photo d g token ''random'') =
              (if Suc (random_index r) < length ids
               then (updateTokenRandomState d token ids (Suc (random_index r)), g)
               else (updateTokenRandomState d token (fst (shuffle (getAllPictureIds d) g)) 0,
                     snd (shuffle (getAllPictureIds d) g))) \<and>
            getToken (fst (snd (photo d g token ''random''))) token =
              Some (if Suc (random_index r) < length ids
                    then r\<lparr>random_ids := Some ids, random_index := Suc (random_index r)\<rparr>
                    else r\<lparr>random_ids := Some (fst (shuffle (getAllPictureIds d) g)),
                           random_index := 0\<rparr>)"
        using gate [OF a] by (intro adv) simp_all
    qed
  next
    show "token \<noteq> [] \<and> 0 < getPictureCount d \<and>
          getPictureById d (ids ! random_index r) = None \<longrightarrow>
            fst (photo d g token ''random'') = NotFound"
      using nf by simp
  qed
qed

theorem random_state_advanced_on_NotFound_witness:
  "getPictureById gallery_stale ([2, 1] ! 1) = None \<and>
   fst (photo gallery_stale zero_draws ''T'' ''random'') = NotFound \<and>
   getToken gallery_stale ''T'' =
     Some \<lparr>current_index = 0, random_ids = Some [2, 1], random_index = 1,
           token_created_at = 0\<rparr> \<and>
   getToken (fst (snd (photo gallery_stale zero_draws ''T'' ''random''))) ''T'' =
     Some \<lparr>current_index = 0, random_ids = Some [2], random_index = 0,
           token_created_at = 0\<rparr>"
proof -
  have h: "getToken gallery_stale ''T'' =
             Some \<lparr>current_index = 0, random_ids = Some [2, 1], random_index = 1,
                   token_created_at = 0\<rparr>"
    "random_ids \<lparr>current_index = 0, random_ids = Some [2, 1], random_index = 1,
       token_created_at = 0\<rparr> = Some [2, 1]"
    "random_index \<lparr>current_index = 0, random_ids = Some [2, 1], random_index = 1,
       token_created_at = 0\<rparr> < length [2, 1 :: nat]"
    by (simp_all add: gallery_stale_eq getToken_def)
  have c: "''T'' \<noteq> []" "0 < getPictureCount gallery_stale"
    "getPictureById gallery_stale ([2, 1] ! 1) = None"
    "fst (shuffle (getAllPictureIds gallery_stale) zero_draws) = [2]"
    by (simp_all add: gallery_stale_eq getPictureCount_def getPictureById_def
        getAllPictureIds_def shuffle_def)
  note t = random_state_advanced_on_NotFound [OF h, of zero_draws]
  have "fst (photo gallery_stale zero_draws ''T'' ''random'') = NotFound"
    using t c(1) c(2) c(3) by simp
  moreover have "getToken (fst (snd (photo gallery_stale zero_draws ''T'' ''random''))) ''T'' =
      Some \<lparr>current_index = 0, random_ids = Some [2], random_index = 0,
            token_created_at = 0\<rparr>"
  proof -
    have "getToken (fst (snd (photo gallery_stale zero_draws ''T'' ''random''))) ''T'' =
      Some (if Suc (random_index \<lparr>current_index = 0, random_ids = Some [2, 1],
                      random_index = 1, token_created_at = 0\<rparr>) < length [2, 1 :: nat]
            then \<lparr>current_index = 0, random_ids = Some [2, 1], random_index = 1,
                   token_created_at = 0\<rparr>
                 \<lparr>random_ids := Some [2, 1],
                   random_index := Suc (random_index \<lparr>current_index = 0,
                     random_ids = Some [2, 1], random_index = 1, token_created_at = 0\<rparr>)\<rparr>
            else \<lparr>current_index = 0, random_ids = Some [2, 1], random_index = 1,
                   token_created_at = 0\<rparr>
                 \<lparr>random_ids := Some (fst (shuffle (getAllPictureIds gallery_stale) zero_draws)),
                   random_index := 0\<rparr>)"
      using t c(1) c(2) by blast
    then show ?thesis by (simp add: c(4))
  qed
  ultimately show ?thesis
    using h(1) c(3) by simp
qed

text \<open>
  C10. After a delivery against a gallery of \<open>n > 0\<close> pictures with a known token, the
  stored state is in range: a sequential delivery stores a cursor below \<open>n\<close>; a
  randomized delivery stores a non-empty permutation and a cursor below its length
  (a state that does not ask for regeneration), and when the entry served was the last
  of its permutation, a permutation of the current ids is stored with cursor 0.
\<close>

theorem persisted_state_in_range:
  assumes "token \<noteq> []" and "0 < getPictureCount d" and "getToken d token = Some r"
  shows "(mode \<noteq> ''random'' \<longrightarrow>
            (\<exists>r'. getToken (fst (snd (photo d g token mode))) token = Some r' \<and>
                  current_index r' < getPictureCount d)) \<and>
         (\<exists>r' ids'.
            getToken (fst (snd (photo d g token ''random''))) token = Some r' \<and>
            random_ids r' = Some ids' \<and> ids' \<noteq> [] \<and> random_index r' < length ids' \<and>
            \<not> needs_regen (random_ids r') (random_index r') \<and>
            (if needs_regen (random_ids r) (random_index r)
             then mset ids' = mset (getAllPictureIds d) \<and>
                  random_index r' = (if getPictureCount d = 1 then 0 else 1)
             else if Suc (random_index r) < length (the (random_ids r))
             then ids' = the (random_ids r) \<and> random_index r' = Suc (random_index r)
             else mset ids' = mset (getAllPictureIds d) \<and> random_index r' = 0))"
proof -
  obtain ids' idx' where
    st: "getToken (fst (snd (photo d g token ''random''))) token =
           Some (r\<lparr>random_ids := Some ids', random_index := idx'\<rparr>)"
    and lt: "idx' < length ids'"
    and shape: "(if needs_regen (random_ids r) (random_index r)
            then mset ids' = mset (getAllPictureIds d) \<and>
                 idx' = (if getPictureCount d = 1 then 0 else 1)
            else if Suc (random_index r) < length (the (random_ids r))
            then ids' = the (random_ids r) \<and> idx' = Suc (random_index r)
            else mset ids' = mset (getAllPictureIds d) \<and> idx' = 0)"
    using random_state_after [OF assms] by blast
  have ne: "ids' \<noteq> []" using lt by auto
  have nr: "\<not> needs_regen (Some ids') idx'"
    using lt by (auto simp: needs_regen_def)
  have "\<exists>r' ids''.
            getToken (fst (snd (photo d g token ''random''))) token = Some r' \<and>
            random_ids r' = Some ids'' \<and> ids'' \<noteq> [] \<and> random_index r' < length ids'' \<and>
            \<not> needs_regen (random_ids r') (random_index r') \<and>
            (if needs_regen (random_ids r) (random_index r)
             then mset ids'' = mset (getAllPictureIds d) \<and>
                  random_index r' = (if getPictureCount d = 1 then 0 else 1)
             else if Suc (random_index r) < length (the (random_ids r))
             then ids'' = the (random_ids r) \<and> random_index r' = Suc (random_index r)
             else mset ids'' = mset (getAllPictureIds d) \<and> random_index r' = 0)"
    apply (rule exI [of _ "r\<lparr>random_ids := Some ids', random_index := idx'\<rparr>"])
    apply (rule exI [of _ ids'])
    using st lt ne nr shape by simp
  then show ?thesis
    using sequential_cursor_in_range [OF assms] by blast
qed

theorem persisted_state_in_range_witness:
  "(\<exists>r'. getToken (fst (snd (photo gallery_AB zero_draws ''T'' ''next''))) ''T'' = Some r' \<and>
         current_index r' < 2) \<and>
   (\<exists>r' ids'. getToken (fst (snd (photo gallery_AB zero_draws ''T'' ''random''))) ''T'' = Some r' \<and>
         random_ids r' = Some ids' \<and> ids' \<noteq> [] \<and> random_index r' < length ids') \<and>
   (\<exists>r' ids'. getToken (fst (snd (photo gallery_stale zero_draws ''T'' ''random''))) ''T'' = Some r' \<and>
         random_ids r' = Some ids' \<and> ids' \<noteq> [] \<and> random_index r' = 0)"
proof -
  have a: "''T'' \<noteq> []" "0 < getPictureCount gallery_AB" "getPictureCount gallery_AB = 2"
    "getToken gallery_AB ''T'' = Some \<lparr>current_index = 0, random_ids = None,
       random_index = 0, token_created_at = 0\<rparr>"
    by (simp_all add: gallery_AB_eq getPictureCount_def getToken_def)
  have b: "0 < getPictureCount gallery_stale"
    "getToken gallery_stale ''T'' = Some \<lparr>current_index = 0, random_ids = Some [2, 1],
       random_index = 1, token_created_at = 0\<rparr>"
    by (simp_all add: gallery_stale_eq getPictureCount_def getToken_def)
  show ?thesis
    using persisted_state_in_range [OF a(1) a(2) a(4), of "''next''" zero_draws]
      persisted_state_in_range [OF a(1) b(1) b(2), of "''next''" zero_draws] a(3)
    by (simp add: needs_regen_def) blast
qed

end
